theory Spec2Isabelle
  imports Main
begin

section \<open>Version formatter (package versionSchemes)\<close>

subsection \<open>Strings and \<open>fmt.Sprintf\<close> verbs\<close>

text \<open>
  A Go string is a sequence of bytes; it is modelled as a \<open>string\<close> (a list of 8-bit
  characters). \<open>byte c\<close> is the numeric value of one byte.
\<close>

definition byte :: "char \<Rightarrow> nat" where
  "byte c = of_char c"

text \<open>
  The verb \<open>%d\<close> of \<open>fmt.Sprintf\<close> on an \<open>int\<close>: decimal digits, most significant
  first, with a leading minus sign for a negative value. The formatter does no arithmetic
  on the commit count, so the Go \<open>int\<close> is modelled as an unbounded \<open>int\<close>.
\<close>

definition digit :: "nat \<Rightarrow> char" where
  "digit d = ''0123456789'' ! d"

fun decimal :: "nat \<Rightarrow> string" where
  "decimal n = (if n < 10 then [digit n] else decimal (n div 10) @ [digit (n mod 10)])"

declare decimal.simps [simp del]

definition fmt_d :: "int \<Rightarrow> string" where
  "fmt_d i = (if i < 0 then CHR ''-'' # decimal (nat (- i)) else decimal (nat i))"

text \<open>The verb \<open>%02d\<close>: as \<open>%d\<close>, padded with zeros on the left to a width of two.\<close>

definition fmt_02d :: "int \<Rightarrow> string" where
  "fmt_02d i = (if 0 \<le> i \<and> i < 10 then CHR ''0'' # fmt_d i else fmt_d i)"

subsection \<open>Helper functions\<close>

definition isMainBranch :: "string \<Rightarrow> bool" where
  "isMainBranch branchName \<longleftrightarrow>
     branchName = ''main'' \<or> branchName = ''master'' \<or> branchName = ''detached''"

text \<open>
  \<open>cleanBranchName\<close> is \<open>regexp.MustCompile(`[^a-zA-Z0-9\-]`).ReplaceAllString(branchName, "-")\<close>.
  The regexp engine reads the string rune by rune, decoding UTF-8 as
  \<open>utf8.DecodeRuneInString\<close> does: \<open>runeSize\<close> is the number of bytes of the first rune
  of a non-empty string (an invalid or truncated encoding is one byte, read as U+FFFD).
  The negated class matches every rune that is not an ASCII letter, digit or hyphen,
  newline included; each match, whatever its width in bytes, is replaced by one hyphen.
\<close>

definition allowedByte :: "char \<Rightarrow> bool" where
  "allowedByte c \<longleftrightarrow>
     (let b = byte c in
        (97 \<le> b \<and> b \<le> 122) \<or> (65 \<le> b \<and> b \<le> 90) \<or> (48 \<le> b \<and> b \<le> 57) \<or> b = 45)"

definition continuation :: "string \<Rightarrow> nat \<Rightarrow> nat \<Rightarrow> nat \<Rightarrow> bool" where
  "continuation s i lo hi \<longleftrightarrow> i < length s \<and> lo \<le> byte (s ! i) \<and> byte (s ! i) \<le> hi"

fun runeSize :: "string \<Rightarrow> nat" where
  "runeSize [] = 0"
| "runeSize (c # cs) =
     (let s0 = byte c in
      if s0 < 128 then 1
      else if s0 < 194 \<or> 245 \<le> s0 then 1
      else
        let sz = (if s0 < 224 then 2 else if s0 < 240 then 3 else 4 :: nat);
            lo = (if s0 = 224 then 160 else if s0 = 240 then 144 else 128);
            hi = (if s0 = 237 then 159 else if s0 = 244 then 143 else 191)
        in if length (c # cs) < sz then 1
           else if \<not> continuation cs 0 lo hi then 1
           else if sz \<le> 2 then 2
           else if \<not> continuation cs 1 128 191 then 1
           else if sz \<le> 3 then 3
           else if \<not> continuation cs 2 128 191 then 1
           else 4)"

declare runeSize.simps [simp del]

function cleanBranchName :: "string \<Rightarrow> string" where
  "cleanBranchName [] = []"
| "cleanBranchName (c # cs) =
     (if allowedByte c then c # cleanBranchName cs
      else CHR ''-'' # cleanBranchName (drop (runeSize (c # cs) - 1) cs))"
  by pat_completeness auto
termination
  by (relation "measure length") auto

definition hasVersionPrefix :: "string \<Rightarrow> bool" where
  "hasVersionPrefix version \<longleftrightarrow> (case version of [] \<Rightarrow> False | c # _ \<Rightarrow> c = CHR ''v'')"

definition ensureVersionPrefix :: "string \<Rightarrow> string" where
  "ensureVersionPrefix version =
     (if \<not> hasVersionPrefix version then ''v'' @ version else version)"

text \<open>
  The part of the tag that \<open>GenerateSemVer\<close> keeps: the tag with a single leading
  \<open>v\<close> stripped if present (\<open>version[1:]\<close> under \<open>hasVersionPrefix\<close>).
\<close>

definition semverCore :: "string \<Rightarrow> string" where
  "semverCore lastTag = (if hasVersionPrefix lastTag then drop 1 lastTag else lastTag)"

subsection \<open>The schemes\<close>

record VersioningOptions =
  Semver :: bool
  CalVer :: bool
  Simple :: bool
  Hash :: bool

text \<open>
  \<open>GenerateCalVer\<close> reads the wall clock (\<open>time.Now()\<close>); the model takes the year and the
  month that call returns as the explicit argument \<open>now\<close>.
\<close>

record civil =
  Year :: int
  Month :: int

definition GenerateCalVer ::
  "civil \<Rightarrow> string \<Rightarrow> int \<Rightarrow> string \<Rightarrow> bool \<Rightarrow> string \<Rightarrow> string" where
  "GenerateCalVer now lastTag commitsSince branchName includeHash shortHash =
     (let calVer = fmt_d (Year now) @ ''.'' @ fmt_02d (Month now);
          calVer = (if commitsSince > 0 then calVer @ ''.'' @ fmt_d commitsSince else calVer);
          calVer = (if \<not> isMainBranch branchName
                    then calVer @ ''-'' @ cleanBranchName branchName else calVer);
          calVer = (if includeHash \<and> shortHash \<noteq> [] then calVer @ ''+'' @ shortHash else calVer)
      in calVer)"

definition GenerateSemVer :: "string \<Rightarrow> int \<Rightarrow> string \<Rightarrow> bool \<Rightarrow> string \<Rightarrow> string" where
  "GenerateSemVer lastTag commitsSince branchName includeHash shortHash =
     (if commitsSince = 0 \<and> \<not> includeHash then lastTag
      else
        let version = semverCore lastTag;
            version =
              (if isMainBranch branchName then
                 (if commitsSince > 0 then version @ ''-dev.'' @ fmt_d commitsSince else version)
               else
                 (let cleanBranch = cleanBranchName branchName in
                  if commitsSince > 0
                  then version @ ''-'' @ cleanBranch @ ''.'' @ fmt_d commitsSince
                  else version @ ''-'' @ cleanBranch));
            version = (if includeHash \<and> shortHash \<noteq> [] then version @ ''+'' @ shortHash
                       else version)
        in ensureVersionPrefix version)"

definition GenerateSimple :: "string \<Rightarrow> string \<Rightarrow> bool \<Rightarrow> string" where
  "GenerateSimple lastTag shortHash includeHash =
     (if includeHash then lastTag @ ''+'' @ shortHash else lastTag)"

definition GenerateDefault :: "string \<Rightarrow> int \<Rightarrow> string \<Rightarrow> string \<Rightarrow> bool \<Rightarrow> string" where
  "GenerateDefault lastTag commitsSince shortHash branchName includeHash =
     (if commitsSince = 0 \<and> \<not> includeHash then lastTag
      else
        let version =
              (if isMainBranch branchName then
                 (if commitsSince > 0 then lastTag @ ''+'' @ fmt_d commitsSince else lastTag)
               else
                 (let cleanBranch = cleanBranchName branchName in
                  if commitsSince > 0
                  then lastTag @ ''-'' @ cleanBranch @ ''+'' @ fmt_d commitsSince
                  else lastTag @ ''-'' @ cleanBranch));
            version = (if includeHash then version @ ''+'' @ shortHash else version)
        in version)"

definition GenerateVersion ::
  "civil \<Rightarrow> string \<Rightarrow> int \<Rightarrow> string \<Rightarrow> string \<Rightarrow> VersioningOptions \<Rightarrow> string" where
  "GenerateVersion now lastTag commitsSince shortHash branchName options =
     (if commitsSince = 0 \<and> \<not> Hash options then
        (if Simple options then lastTag
         else if CalVer options then GenerateCalVer now lastTag 0 branchName False shortHash
         else lastTag)
      else if CalVer options then
        GenerateCalVer now lastTag commitsSince branchName (Hash options) shortHash
      else if Semver options then
        GenerateSemVer lastTag commitsSince branchName (Hash options) shortHash
      else if Simple options then GenerateSimple lastTag shortHash (Hash options)
      else GenerateDefault lastTag commitsSince shortHash branchName (Hash options))"

definition GenerateLegacy :: "string \<Rightarrow> int \<Rightarrow> string \<Rightarrow> string \<Rightarrow> bool \<Rightarrow> string" where
  "GenerateLegacy lastTag commitsSince shortHash branchName dockerFormat =
     (if commitsSince = 0 then lastTag
      else if isMainBranch branchName then
        (if dockerFormat then lastTag @ ''-'' @ fmt_d commitsSince
         else lastTag @ ''+'' @ fmt_d commitsSince)
      else
        (let cleanBranch = cleanBranchName branchName in
         if dockerFormat then lastTag @ ''-'' @ cleanBranch @ ''-'' @ fmt_d commitsSince
         else lastTag @ ''-'' @ cleanBranch @ ''+'' @ fmt_d commitsSince))"


section \<open>Repository access through go-git (GoGitHandler)\<close>

subsection \<open>The repository as the handler reads it\<close>

text \<open>
  A \<open>plumbing.Hash\<close> is an opaque object id; only equality of hashes is used, so it is
  modelled as a natural number. An object of the store is a commit (its parent hashes in
  order and the committer time in Unix seconds), an annotated tag (the hash of its target)
  or something else (a tree or a blob).
\<close>

type_synonym hash = nat

datatype object = Commit "hash list" int | Tag hash | Other

datatype error =
    HeadError
  | TagsError
  | TagReferenceError
  | ObjectNotFound hash
  | UnsupportedTagObject
  | NoCommonAncestor

text \<open>
  The state of \<open>git.Repository\<close> that the handler reads: what \<open>repo.Head()\<close> resolves to
  (\<open>None\<close> when it fails), the object store, the tag references in the order
  \<open>repo.Tags()\<close> iterates them (\<open>None\<close> when that call fails), and the branch references.
\<close>

record repository =
  head :: "hash option"
  objects :: "(hash \<times> object) list"
  tagRefs :: "(string \<times> hash) list option"
  branchRefs :: "(string \<times> hash) list"

definition Object :: "repository \<Rightarrow> hash \<Rightarrow> error + object" where
  "Object r h = (case map_of (objects r) h of None \<Rightarrow> Inl (ObjectNotFound h) | Some obj \<Rightarrow> Inr obj)"

definition CommitObject :: "repository \<Rightarrow> hash \<Rightarrow> error + hash" where
  "CommitObject r h =
     (case map_of (objects r) h of
        Some (Commit ps t) \<Rightarrow> Inr h
      | _ \<Rightarrow> Inl (ObjectNotFound h))"

definition committerTime :: "repository \<Rightarrow> hash \<Rightarrow> int" where
  "committerTime r h = (case map_of (objects r) h of Some (Commit ps t) \<Rightarrow> t | _ \<Rightarrow> 0)"

definition Reference :: "repository \<Rightarrow> string \<Rightarrow> hash option" where
  "Reference r branch = map_of (branchRefs r) branch"

subsection \<open>\<open>object.NewCommitPreorderIter\<close>\<close>

text \<open>
  The pre-order commit iterator of go-git keeps a stack of parent iterators and a set of
  seen hashes. \<open>Next\<close> takes the next hash of the top iterator (popping an exhausted
  one), loads the commit (an error ends the iteration), skips it when already seen, and
  otherwise marks it, pushes an iterator over those of its parents that are not seen yet,
  and yields it. \<open>preorder\<close> runs the iterator to its end: it returns the commits yielded,
  in order, and the error that ended the iteration, if any. A \<open>ForEach\<close> whose callback
  stops early reads a prefix of that list.
\<close>

function preorder ::
  "(hash \<times> object) list \<Rightarrow> hash list list \<Rightarrow> hash list \<Rightarrow> hash list \<times> error option" where
  "preorder s [] seen = ([], None)"
| "preorder s ([] # stack) seen = preorder s stack seen"
| "preorder s ((h # hs) # stack) seen =
     (case map_of s h of
        Some (Commit ps t) \<Rightarrow>
          if h \<in> set seen then preorder s (hs # stack) seen
          else
            (let seen' = h # seen;
                 stack' = (if ps \<noteq> [] then filter (\<lambda>p. p \<notin> set seen') ps # hs # stack
                           else hs # stack);
                 rest = preorder s stack' seen'
             in (h # fst rest, snd rest))
      | _ \<Rightarrow> ([], Some (ObjectNotFound h)))"
  by pat_completeness auto
termination
proof (relation "measures [\<lambda>(s, stack, seen). card (fst ` set s - set seen),
                           \<lambda>(s, stack, seen). sum_list (map length stack) + length stack]",
       goal_cases)
  case 1
  show ?case by simp
next
  case (2 s stack seen)
  show ?case by simp
next
  case (3 s h hs stack seen obj ps t)
  show ?case by simp
next
  case (4 s h hs stack seen obj ps t seen' stack')
  from 4 have "h \<in> fst ` set s - set seen"
    by (auto dest!: map_of_SomeD intro: rev_image_eqI)
  then have "fst ` set s - set (h # seen) \<subset> fst ` set s - set seen"
    by auto
  then have "card (fst ` set s - set (h # seen)) < card (fst ` set s - set seen)"
    by (intro psubset_card_mono) simp_all
  with 4 show ?case by simp
qed

declare preorder.simps [simp del]

text \<open>The iterator as the handler creates it: started at one commit, nothing seen.\<close>

definition NewCommitPreorderIter :: "repository \<Rightarrow> hash \<Rightarrow> hash list \<times> error option" where
  "NewCommitPreorderIter r c = preorder (objects r) [[c]] []"

subsection \<open>Walks of the handler\<close>

definition isCommitReachable :: "repository \<Rightarrow> hash \<Rightarrow> hash \<Rightarrow> error + bool" where
  "isCommitReachable r from to =
     (if from = to then Inr True
      else case CommitObject r from of
        Inl e \<Rightarrow> Inl e
      | Inr commit \<Rightarrow> Inr (to \<in> set (fst (NewCommitPreorderIter r commit))))"

definition countAllCommits :: "repository \<Rightarrow> hash \<Rightarrow> error + int" where
  "countAllCommits r commitHash =
     (case CommitObject r commitHash of
        Inl e \<Rightarrow> Inl e
      | Inr commit \<Rightarrow>
          (case NewCommitPreorderIter r commit of
             (visited, Some e) \<Rightarrow> Inl e
           | (visited, None) \<Rightarrow> Inr (int (length visited))))"

definition findCommonAncestor :: "repository \<Rightarrow> hash \<Rightarrow> hash \<Rightarrow> error + hash" where
  "findCommonAncestor r commit1 commit2 =
     (if commit1 = commit2 then Inr commit1
      else case CommitObject r commit1 of
        Inl e \<Rightarrow> Inl e
      | Inr c1 \<Rightarrow>
          (case CommitObject r commit2 of
             Inl e \<Rightarrow> Inl e
           | Inr c2 \<Rightarrow>
               (case NewCommitPreorderIter r c2 of
                  (ancestorsMap, Some e) \<Rightarrow> Inl e
                | (ancestorsMap, None) \<Rightarrow>
                    (case find (\<lambda>c. c \<in> set ancestorsMap) (fst (NewCommitPreorderIter r c1)) of
                       Some commonAncestor \<Rightarrow> Inr commonAncestor
                     | None \<Rightarrow> Inl NoCommonAncestor))))"

subsection \<open>Tag resolution\<close>

record tagEntry =
  name :: string
  hash :: hash
  time :: int

text \<open>
  \<open>sort.Slice(tags, func(i, j) bool { return tags[i].time > tags[j].time })\<close>. The
  project asks for Go 1.21 or later, where \<open>sort.Slice\<close> sorts a slice of at most twelve
  elements by insertion (\<open>insertionSort\<close>: each element moves left while it is strictly
  newer than its predecessor) and a longer slice by pattern-defeating quicksort, which
  promises no order among entries of equal time. The sort of the longer slices is
  library code outside the repository and is a parameter of the model, \<open>pdqsort\<close>. The
  general statements below hold for every such function; the closed examples have at
  most two tags, so the function they pass for it is never called.
\<close>

type_synonym sorter = "tagEntry list \<Rightarrow> tagEntry list"

fun insertTag :: "tagEntry \<Rightarrow> tagEntry list \<Rightarrow> tagEntry list" where
  "insertTag x [] = [x]"
| "insertTag x (y # ys) = (if time x > time y then x # y # ys else y # insertTag x ys)"

definition insertionSort :: sorter where
  "insertionSort tags = foldl (\<lambda>sorted x. insertTag x sorted) [] tags"

definition sortSlice :: "sorter \<Rightarrow> tagEntry list \<Rightarrow> tagEntry list" where
  "sortSlice pdqsort tags = (if length tags \<le> 12 then insertionSort tags else pdqsort tags)"

text \<open>
  The callback of \<open>tagRefs.ForEach\<close> in \<open>findTagFromCurrentBranch\<close>, run over the
  references in order: the entries appended to \<open>tags\<close>, or the first error.
\<close>

fun reachableTags ::
  "repository \<Rightarrow> hash \<Rightarrow> (string \<times> hash) list \<Rightarrow> error + tagEntry list" where
  "reachableTags r commitHash [] = Inr []"
| "reachableTags r commitHash ((tagName, refHash) # refs) =
     (case Object r refHash of
        Inl e \<Rightarrow> Inl e
      | Inr Other \<Rightarrow> reachableTags r commitHash refs
      | Inr obj \<Rightarrow>
          (let tagCommitHash = (case obj of Tag target \<Rightarrow> target | _ \<Rightarrow> refHash) in
           case isCommitReachable r commitHash tagCommitHash of
             Inl e \<Rightarrow> Inl e
           | Inr False \<Rightarrow> reachableTags r commitHash refs
           | Inr True \<Rightarrow>
               (case CommitObject r tagCommitHash of
                  Inl e \<Rightarrow> Inl e
                | Inr commit \<Rightarrow>
                    (case reachableTags r commitHash refs of
                       Inl e \<Rightarrow> Inl e
                     | Inr tags \<Rightarrow>
                         Inr (\<lparr>name = tagName, hash = tagCommitHash,
                               time = committerTime r commit\<rparr> # tags)))))"

definition findTagFromCurrentBranch :: "sorter \<Rightarrow> repository \<Rightarrow> hash \<Rightarrow> error + string" where
  "findTagFromCurrentBranch pdqsort r commitHash =
     (case tagRefs r of
        None \<Rightarrow> Inl TagsError
      | Some refs \<Rightarrow>
          (case reachableTags r commitHash refs of
             Inl e \<Rightarrow> Inl e
           | Inr tags \<Rightarrow>
               if length tags = 0 then Inr ''v0.0.0''
               else Inr (name (hd (sortSlice pdqsort tags)))))"

text \<open>The trunk reference \<open>findTagFromRebasePoint\<close> settles on: \<open>main\<close>, else \<open>master\<close>.\<close>

definition mainBranch :: "repository \<Rightarrow> hash option" where
  "mainBranch r =
     (case Reference r ''main'' of
        Some mainRef \<Rightarrow> Some mainRef
      | None \<Rightarrow> Reference r ''master'')"

definition GoGit_findTagFromRebasePoint ::
  "sorter \<Rightarrow> repository \<Rightarrow> hash \<Rightarrow> string \<Rightarrow> error + string" where
  "GoGit_findTagFromRebasePoint pdqsort r commitHash branchName =
     (case mainBranch r of
        None \<Rightarrow> findTagFromCurrentBranch pdqsort r commitHash
      | Some mainHash \<Rightarrow>
          (case findCommonAncestor r commitHash mainHash of
             Inl e \<Rightarrow> findTagFromCurrentBranch pdqsort r commitHash
           | Inr commonAncestor \<Rightarrow> findTagFromCurrentBranch pdqsort r commonAncestor))"

definition GoGit_GetLastTag :: "sorter \<Rightarrow> repository \<Rightarrow> string \<Rightarrow> error + string" where
  "GoGit_GetLastTag pdqsort r branchName =
     (case head r of
        None \<Rightarrow> Inl HeadError
      | Some headHash \<Rightarrow>
          if branchName \<noteq> ''main'' \<and> branchName \<noteq> ''master''
          then GoGit_findTagFromRebasePoint pdqsort r headHash branchName
          else findTagFromCurrentBranch pdqsort r headHash)"

subsection \<open>Commit distance\<close>

text \<open>
  The counter of \<open>GetCommitsSinceTag\<close> and of \<open>countAllCommits\<close> is a Go \<open>int\<close> that is
  incremented once for each commit visited; it is modelled as an unbounded \<open>int\<close>.
\<close>

text \<open>
  The commit a tag name stands for in \<open>GetCommitsSinceTag\<close>: the reference
  \<open>refs/tags/<name>\<close> (\<open>repo.Tag\<close>, which fails when there is no such reference or
  the references cannot be read), through the tag object when the tag is annotated.
\<close>

definition tagCommitHash :: "repository \<Rightarrow> string \<Rightarrow> error + hash" where
  "tagCommitHash r tagName =
     (case map_of (case tagRefs r of None \<Rightarrow> [] | Some refs \<Rightarrow> refs) tagName of
        None \<Rightarrow> Inl TagReferenceError
      | Some refHash \<Rightarrow>
          (case Object r refHash of
             Inl e \<Rightarrow> Inl e
           | Inr (Tag target) \<Rightarrow> Inr target
           | Inr (Commit ps t) \<Rightarrow> Inr refHash
           | Inr Other \<Rightarrow> Inl UnsupportedTagObject))"

definition GoGit_GetCommitsSinceTag :: "repository \<Rightarrow> string \<Rightarrow> error + int" where
  "GoGit_GetCommitsSinceTag r tagName =
     (case head r of
        None \<Rightarrow> Inl HeadError
      | Some headHash \<Rightarrow>
          if tagName = ''v0.0.0'' then countAllCommits r headHash
          else case tagCommitHash r tagName of
            Inl e \<Rightarrow> Inl e
          | Inr tagCommit \<Rightarrow>
              if headHash = tagCommit then Inr 0
              else case CommitObject r headHash of
                Inl e \<Rightarrow> Inl e
              | Inr commit \<Rightarrow>
                  (case NewCommitPreorderIter r commit of (visited, err) \<Rightarrow>
                     if tagCommit \<in> set visited
                     then Inr (int (length (takeWhile (\<lambda>c. c \<noteq> tagCommit) visited)))
                     else case err of
                       Some e \<Rightarrow> Inl e
                     | None \<Rightarrow> Inr (int (length visited))))"

section \<open>Repository access through the git executable (SystemGitHandler)\<close>

text \<open>
  \<open>runGitCommand\<close> starts the external \<open>git\<close>; what it answers is a parameter of the model:
  \<open>run args\<close> is the trimmed standard output, or \<open>None\<close> when the command fails.
\<close>

type_synonym git = "string list \<Rightarrow> string option"

function SystemGit_GetLastTag :: "git \<Rightarrow> string \<Rightarrow> error + string"
  and SystemGit_findTagFromRebasePoint :: "git \<Rightarrow> string \<Rightarrow> error + string" where
  "SystemGit_GetLastTag run branchName =
     (if branchName \<noteq> ''main'' \<and> branchName \<noteq> ''master''
      then SystemGit_findTagFromRebasePoint run branchName
      else case run [''describe'', ''--tags'', ''--abbrev=0''] of
        None \<Rightarrow> Inr ''v0.0.0''
      | Some output \<Rightarrow> Inr output)"
| "SystemGit_findTagFromRebasePoint run branchName =
     (case run [''merge-base'', ''HEAD'', ''main''] of
        Some mergeBase \<Rightarrow>
          (case run [''describe'', ''--tags'', ''--abbrev=0'', mergeBase] of
             None \<Rightarrow> Inr ''v0.0.0''
           | Some output \<Rightarrow> Inr output)
      | None \<Rightarrow>
          (case run [''merge-base'', ''HEAD'', ''master''] of
             Some mergeBase \<Rightarrow>
               (case run [''describe'', ''--tags'', ''--abbrev=0'', mergeBase] of
                  None \<Rightarrow> Inr ''v0.0.0''
                | Some output \<Rightarrow> Inr output)
           | None \<Rightarrow> SystemGit_GetLastTag run ''main''))"
  by pat_completeness auto
termination
  by (relation "measure (\<lambda>x. case x of
        Inl (run, branchName) \<Rightarrow>
          (if branchName \<noteq> ''main'' \<and> branchName \<noteq> ''master'' then 2 else 0)
      | Inr (run, branchName) \<Rightarrow> Suc 0)") auto

declare SystemGit_GetLastTag.simps [simp del]
declare SystemGit_findTagFromRebasePoint.simps [simp del]

section \<open>Ancestors in the commit graph\<close>

text \<open>
  The notions the properties below are stated with; they follow the specification, not
  the code. The parent edges of the store, and the commits reachable from a commit over
  any number of parent edges (the commit itself included): a tag is reachable from a
  commit when the commit it stands for is among these.
\<close>

definition parentEdges :: "(hash \<times> object) list \<Rightarrow> (hash \<times> hash) set" where
  "parentEdges s = {(c, p). \<exists>ps t. map_of s c = Some (Commit ps t) \<and> p \<in> set ps}"

definition ancestors :: "(hash \<times> object) list \<Rightarrow> hash \<Rightarrow> hash set" where
  "ancestors s c = (parentEdges s)\<^sup>* `` {c}"

definition isCommit :: "(hash \<times> object) list \<Rightarrow> hash \<Rightarrow> bool" where
  "isCommit s h \<longleftrightarrow> (case map_of s h of Some (Commit ps t) \<Rightarrow> True | _ \<Rightarrow> False)"

text \<open>A store is complete when every parent of a commit of the store is a commit of the store.\<close>

definition completeStore :: "(hash \<times> object) list \<Rightarrow> bool" where
  "completeStore s \<longleftrightarrow>
     list_all (\<lambda>(c, obj). case obj of Commit ps t \<Rightarrow> list_all (isCommit s) ps | _ \<Rightarrow> True) s"

text \<open>
  The commits the tag references stand for: the target of an annotated tag, the commit of
  a lightweight one; a reference to anything else stands for no commit.
\<close>

definition tagTargets :: "(hash \<times> object) list \<Rightarrow> (string \<times> hash) list \<Rightarrow> hash list" where
  "tagTargets s refs =
     concat (map (\<lambda>(tagName, refHash).
       case map_of s refHash of
         Some (Tag target) \<Rightarrow> [target]
       | Some (Commit ps t) \<Rightarrow> [refHash]
       | _ \<Rightarrow> []) refs)"

text \<open>
  Reading the tags does not fail: \<open>repo.Tags()\<close> answers, and the object of every tag
  reference is in the store.
\<close>

definition tagsReadable :: "repository \<Rightarrow> bool" where
  "tagsReadable r \<longleftrightarrow>
     (case tagRefs r of
        None \<Rightarrow> False
      | Some refs \<Rightarrow> list_all (\<lambda>(tagName, refHash). map_of (objects r) refHash \<noteq> None) refs)"

section \<open>Properties of the version formatter\<close>


lemma allowed_hyphen: "allowedByte CHR ''-''"
  by (simp add: allowedByte_def byte_def)

lemma hasVersionPrefix_ensure: "hasVersionPrefix (ensureVersionPrefix v)"
  by (simp add: ensureVersionPrefix_def hasVersionPrefix_def)

lemma hasVersionPrefix_append:
  "hasVersionPrefix (c @ CHR ''-'' # rest) = hasVersionPrefix c"
  by (cases c) (simp_all add: hasVersionPrefix_def)

text \<open>
  Claim C5. In the Default scheme without the hash and with a positive distance, a trunk
  branch gives \<open>tag+distance\<close> and any other branch gives \<open>tag-branch+distance\<close>, the
  branch name sanitized; the entry point \<open>GenerateVersion\<close> with no scheme selected gives
  the same string. Tag \<open>v1.2.3\<close>, distance 5 on \<open>main\<close> is \<open>v1.2.3+5\<close>; tag \<open>v1.2.3\<close>,
  distance 3 on \<open>feature/auth\<close> is \<open>v1.2.3-feature-auth+3\<close>.
\<close>

theorem GenerateDefault_without_hash:
  assumes "commitsSince > 0"
  shows "GenerateDefault lastTag commitsSince shortHash branchName False =
           (if isMainBranch branchName then lastTag @ ''+'' @ fmt_d commitsSince
            else lastTag @ ''-'' @ cleanBranchName branchName @ ''+'' @ fmt_d commitsSince)
       \<and> GenerateVersion now lastTag commitsSince shortHash branchName
            \<lparr>Semver = False, CalVer = False, Simple = False, Hash = False\<rparr> =
           GenerateDefault lastTag commitsSince shortHash branchName False
       \<and> GenerateDefault ''v1.2.3'' 5 shortHash ''main'' False = ''v1.2.3+5''
       \<and> GenerateDefault ''v1.2.3'' 3 shortHash ''feature/auth'' False = ''v1.2.3-feature-auth+3''"
proof -
  have ex1: "fmt_d 5 = ''5''" and ex2: "fmt_d 3 = ''3''"
    by (simp_all add: fmt_d_def decimal.simps digit_def)
  have ex3: "cleanBranchName ''feature/auth'' = ''feature-auth''"
    by (simp add: allowedByte_def byte_def runeSize.simps)
  have "GenerateDefault ''v1.2.3'' 5 shortHash ''main'' False = ''v1.2.3+5''"
    by (simp add: GenerateDefault_def isMainBranch_def ex1)
  moreover have "GenerateDefault ''v1.2.3'' 3 shortHash ''feature/auth'' False = ''v1.2.3-feature-auth+3''"
    by (simp add: GenerateDefault_def isMainBranch_def ex2 ex3 del: cleanBranchName.simps)
  moreover from assms have "GenerateDefault lastTag commitsSince shortHash branchName False =
           (if isMainBranch branchName then lastTag @ ''+'' @ fmt_d commitsSince
            else lastTag @ ''-'' @ cleanBranchName branchName @ ''+'' @ fmt_d commitsSince)"
    by (simp add: GenerateDefault_def)
  moreover from assms have "GenerateVersion now lastTag commitsSince shortHash branchName
            \<lparr>Semver = False, CalVer = False, Simple = False, Hash = False\<rparr> =
           GenerateDefault lastTag commitsSince shortHash branchName False"
    by (simp add: GenerateVersion_def)
  ultimately show ?thesis by blast
qed

text \<open>
  Claim C5 at tag \<open>v2.0.0\<close>, distance 7, branch \<open>fix/io\<close>.
\<close>

theorem GenerateDefault_without_hash_witness:
  "(0::int) < 7 \<and> GenerateDefault ''v2.0.0'' 7 ''abc1234'' ''fix/io'' False = ''v2.0.0-fix-io+7''"
proof -
  have d: "fmt_d 7 = ''7''" by (simp add: fmt_d_def decimal.simps digit_def)
  have c: "cleanBranchName ''fix/io'' = ''fix-io''"
    by (simp add: allowedByte_def byte_def runeSize.simps)
  have m: "\<not> isMainBranch ''fix/io''" by (simp add: isMainBranch_def)
  have h: "(0::int) < 7" by simp
  from GenerateDefault_without_hash [OF h, of "''v2.0.0''" "''abc1234''" "''fix/io''"] m
  show ?thesis by (simp add: d c del: cleanBranchName.simps)
qed

text \<open>
  Claim C10. In the legacy mode a distance of 0 gives exactly the tag, whatever the branch
  name, the short hash and the docker flag are.
\<close>

theorem GenerateLegacy_on_tag:
  "GenerateLegacy lastTag 0 shortHash branchName dockerFormat = lastTag"
  by (simp add: GenerateLegacy_def)

text \<open>
  Claim C9. \<open>GenerateCalVer\<close> gives the same string for any two tags when the date and the
  other arguments are the same. The string is the year, a dot and the month on two digits;
  then \<open>.distance\<close> exactly when the distance is positive, \<open>-branch\<close> exactly when the branch
  is not a trunk branch, and \<open>+shortHash\<close> exactly when the hash is asked for and not empty.
  For a month from 1 to 12 the month part has exactly two characters.
\<close>

theorem GenerateCalVer_ignores_tag:
  "GenerateCalVer now tag1 commitsSince branchName includeHash shortHash =
   GenerateCalVer now tag2 commitsSince branchName includeHash shortHash
   \<and> GenerateCalVer now tag1 commitsSince branchName includeHash shortHash =
       fmt_d (Year now) @ ''.'' @ fmt_02d (Month now)
       @ (if commitsSince > 0 then ''.'' @ fmt_d commitsSince else [])
       @ (if \<not> isMainBranch branchName then ''-'' @ cleanBranchName branchName else [])
       @ (if includeHash \<and> shortHash \<noteq> [] then ''+'' @ shortHash else [])
   \<and> (1 \<le> Month now \<and> Month now \<le> 12 \<longrightarrow> length (fmt_02d (Month now)) = 2)"
proof -
  have two: "length (fmt_02d m) = 2" if "1 \<le> m" "m \<le> 12" for m
  proof (cases "m < 10")
    case True
    with that have "nat m < 10" by simp
    with True that show ?thesis
      by (simp add: fmt_02d_def fmt_d_def decimal.simps [of "nat m"])
  next
    case False
    with that have q: "nat m div 10 = Suc 0" and big: "\<not> nat m < 10" by simp_all
    have one: "decimal (Suc 0) = [digit (Suc 0)]" by (simp add: decimal.simps [of "Suc 0"])
    from False that q big one show ?thesis
      by (simp add: fmt_02d_def fmt_d_def decimal.simps [of "nat m"])
  qed
  then show ?thesis
    by (simp add: GenerateCalVer_def Let_def)
qed

text \<open>
  Claim C6, amended. In the Semver scheme with a positive distance the result is
  \<open>core-dev.distance\<close> on a trunk branch and \<open>core-branch.distance\<close> on any other branch
  (then \<open>+shortHash\<close> when the hash is asked for and not empty), with a leading \<open>v\<close> put in
  front only when that string does not begin with \<open>v\<close> already. The result always begins
  with \<open>v\<close>. When the core does not begin with \<open>v\<close> (the tag does not begin with \<open>vv\<close>) and
  no hash is asked for, the result is \<open>v\<close>, the core and the suffix.
\<close>

theorem GenerateSemVer_commits_since:
  assumes "commitsSince > 0"
  shows "GenerateSemVer lastTag commitsSince branchName includeHash shortHash =
           ensureVersionPrefix
             (semverCore lastTag
              @ (if isMainBranch branchName then ''-dev.'' @ fmt_d commitsSince
                 else ''-'' @ cleanBranchName branchName @ ''.'' @ fmt_d commitsSince)
              @ (if includeHash \<and> shortHash \<noteq> [] then ''+'' @ shortHash else []))
       \<and> hasVersionPrefix (GenerateSemVer lastTag commitsSince branchName includeHash shortHash)
       \<and> (\<not> hasVersionPrefix (semverCore lastTag) \<longrightarrow>
            GenerateSemVer lastTag commitsSince branchName False shortHash =
              ''v'' @ semverCore lastTag
              @ (if isMainBranch branchName then ''-dev.'' @ fmt_d commitsSince
                 else ''-'' @ cleanBranchName branchName @ ''.'' @ fmt_d commitsSince))"
proof -
  let ?mid = "(if isMainBranch branchName then ''-dev.'' @ fmt_d commitsSince
                 else ''-'' @ cleanBranchName branchName @ ''.'' @ fmt_d commitsSince)"
  from assms have eq: "GenerateSemVer lastTag commitsSince branchName h shortHash =
           ensureVersionPrefix (semverCore lastTag @ ?mid
             @ (if h \<and> shortHash \<noteq> [] then ''+'' @ shortHash else []))" for h
    by (simp add: GenerateSemVer_def Let_def)
  have pre: "hasVersionPrefix (GenerateSemVer lastTag commitsSince branchName includeHash shortHash)"
    unfolding eq by (rule hasVersionPrefix_ensure)
  have "\<exists>rest. ?mid = CHR ''-'' # rest" by simp
  then obtain rest where r: "?mid = CHR ''-'' # rest" ..
  have plain: "GenerateSemVer lastTag commitsSince branchName False shortHash =
              ''v'' @ semverCore lastTag @ ?mid" if "\<not> hasVersionPrefix (semverCore lastTag)"
  proof -
    from that have "\<not> hasVersionPrefix (semverCore lastTag @ ?mid)"
      unfolding r by (simp only: hasVersionPrefix_append not_False_eq_True)
    then show ?thesis
      using eq [of False] by (simp add: ensureVersionPrefix_def)
  qed
  from eq [of includeHash] pre plain show ?thesis by blast
qed

text \<open>
  Claim C6, amended, at tag \<open>v1.2.3\<close>, distance 5 on \<open>main\<close>: the result is \<open>v1.2.3-dev.5\<close>.
\<close>

theorem GenerateSemVer_commits_since_witness:
  "(0::int) < 5 \<and> \<not> hasVersionPrefix (semverCore ''v1.2.3'')
   \<and> GenerateSemVer ''v1.2.3'' 5 ''main'' False ''abc1234'' = ''v1.2.3-dev.5''"
proof -
  have d: "fmt_d 5 = ''5''" by (simp add: fmt_d_def decimal.simps digit_def)
  have h: "(0::int) < 5" by simp
  have c: "semverCore ''v1.2.3'' = ''1.2.3''" by (simp add: semverCore_def hasVersionPrefix_def)
  have n: "\<not> hasVersionPrefix ''1.2.3''" by (simp add: hasVersionPrefix_def)
  from GenerateSemVer_commits_since [OF h, of "''v1.2.3''" "''main''" False "''abc1234''"] n
  show ?thesis by (simp add: d c isMainBranch_def ensureVersionPrefix_def hasVersionPrefix_def)
qed

text \<open>
  Claim C6 as stated fails for a tag that begins with \<open>vv\<close>: the core of \<open>vv1.2.3\<close> is
  \<open>v1.2.3\<close>, so the stated form is \<open>vv1.2.3-dev.5\<close>, but no \<open>v\<close> is put in front of a string
  that has one, and the result is \<open>v1.2.3-dev.5\<close>.
\<close>

theorem GenerateSemVer_template_counterexample:
  "GenerateSemVer ''vv1.2.3'' 5 ''main'' False [] = ''v1.2.3-dev.5''
   \<and> ''v'' @ semverCore ''vv1.2.3'' @ ''-dev.'' @ fmt_d 5 = ''vv1.2.3-dev.5''
   \<and> GenerateSemVer ''vv1.2.3'' 5 ''main'' False [] \<noteq> ''v'' @ semverCore ''vv1.2.3'' @ ''-dev.'' @ fmt_d 5"
proof -
  have d: "fmt_d 5 = ''5''" by (simp add: fmt_d_def decimal.simps digit_def)
  show ?thesis
    by (simp add: GenerateSemVer_def semverCore_def hasVersionPrefix_def ensureVersionPrefix_def
        isMainBranch_def d)
qed


lemma clean_allowed: "x \<in> set (cleanBranchName s) \<Longrightarrow> allowedByte x"
proof (induction s arbitrary: x rule: cleanBranchName.induct)
  case 1
  then show ?case by simp
next
  case (2 c cs)
  show ?case
  proof (cases "allowedByte c")
    case True
    with "2.prems" have "x = c \<or> x \<in> set (cleanBranchName cs)"
      by simp
    with True "2.IH"(1) show ?thesis by blast
  next
    case False
    with "2.prems" have "x = CHR ''-'' \<or> x \<in> set (cleanBranchName (drop (runeSize (c # cs) - 1) cs))"
      by simp
    with False "2.IH"(2) allowed_hyphen show ?thesis by blast
  qed
qed

lemma clean_fixed: "(\<And>x. x \<in> set s \<Longrightarrow> allowedByte x) \<Longrightarrow> cleanBranchName s = s"
  by (induction s) simp_all

text \<open>
  Claim C8. \<open>cleanBranchName\<close> is defined for every string (the recursion above terminates
  on every input) and sanitizing twice is sanitizing once. Every byte of the result is an
  ASCII letter, a digit or a hyphen, and the result is never longer than the input.
\<close>

theorem cleanBranchName_idempotent:
  "cleanBranchName (cleanBranchName s) = cleanBranchName s
   \<and> (\<forall>c \<in> set (cleanBranchName s). allowedByte c)
   \<and> length (cleanBranchName s) \<le> length s"
proof -
  have len: "length (cleanBranchName t) \<le> length t" for t
  proof (induction t rule: cleanBranchName.induct)
    case 1
    then show ?case by simp
  next
    case (2 c cs)
    show ?case
    proof (cases "allowedByte c")
      case True
      with "2.IH"(1) show ?thesis by simp
    next
      case False
      have "length (drop (runeSize (c # cs) - 1) cs) \<le> length cs" by simp
      with "2.IH"(2) [OF False]
      have "length (cleanBranchName (drop (runeSize (c # cs) - 1) cs)) \<le> length cs"
        by (rule le_trans)
      with False show ?thesis by simp
    qed
  qed
  have "cleanBranchName (cleanBranchName s) = cleanBranchName s"
    by (rule clean_fixed) (rule clean_allowed)
  with len [of s] clean_allowed [of _ s] show ?thesis by blast
qed

text \<open>
  Claim C8 at \<open>release/2.0\<close>.
\<close>

theorem cleanBranchName_idempotent_witness:
  "cleanBranchName ''release/2.0'' = ''release-2-0''
   \<and> cleanBranchName (cleanBranchName ''release/2.0'') = ''release-2-0''
   \<and> list_all allowedByte ''release-2-0''"
proof -
  have c: "cleanBranchName ''release/2.0'' = ''release-2-0''"
    by (simp add: allowedByte_def byte_def runeSize.simps)
  from cleanBranchName_idempotent [of "''release/2.0''"] show ?thesis
    unfolding c by (simp add: list_all_iff)
qed

text \<open>
  Claim C4, amended. On a branch that is not a trunk branch and at distance 0, the Semver
  scheme returns the tag unchanged when the hash is not asked for. When it is asked for,
  the result is \<open>core-branch\<close>, then \<open>+shortHash\<close> if the short hash is not empty, with a
  leading \<open>v\<close> put in front only when that string does not begin with \<open>v\<close> already; so it is
  \<open>v\<close>, the core, \<open>-branch\<close> and the hash part whenever the core does not begin with \<open>v\<close>.
  The entry point \<open>GenerateVersion\<close> with Semver selected (and CalVer not) does the same.
\<close>

theorem GenerateSemVer_on_tag_other_branch:
  assumes "\<not> isMainBranch branchName"
  shows "GenerateSemVer lastTag 0 branchName False shortHash = lastTag
       \<and> GenerateSemVer lastTag 0 branchName True shortHash =
           ensureVersionPrefix
             (semverCore lastTag @ ''-'' @ cleanBranchName branchName
              @ (if shortHash \<noteq> [] then ''+'' @ shortHash else []))
       \<and> hasVersionPrefix (GenerateSemVer lastTag 0 branchName True shortHash)
       \<and> (\<not> hasVersionPrefix (semverCore lastTag) \<longrightarrow>
            GenerateSemVer lastTag 0 branchName True shortHash =
              ''v'' @ semverCore lastTag @ ''-'' @ cleanBranchName branchName
              @ (if shortHash \<noteq> [] then ''+'' @ shortHash else []))
       \<and> (Semver options \<and> \<not> CalVer options \<longrightarrow>
            GenerateVersion now lastTag 0 shortHash branchName options =
              (if Hash options then GenerateSemVer lastTag 0 branchName True shortHash
               else lastTag))"
proof -
  let ?body = "semverCore lastTag @ ''-'' @ cleanBranchName branchName
              @ (if shortHash \<noteq> [] then ''+'' @ shortHash else [])"
  have off: "GenerateSemVer lastTag 0 branchName False shortHash = lastTag"
    by (simp add: GenerateSemVer_def)
  from assms have on: "GenerateSemVer lastTag 0 branchName True shortHash = ensureVersionPrefix ?body"
    by (simp add: GenerateSemVer_def Let_def)
  have pre: "hasVersionPrefix (GenerateSemVer lastTag 0 branchName True shortHash)"
    unfolding on by (rule hasVersionPrefix_ensure)
  have plain: "GenerateSemVer lastTag 0 branchName True shortHash = ''v'' @ ?body"
    if "\<not> hasVersionPrefix (semverCore lastTag)"
  proof -
    have "?body = semverCore lastTag @ CHR ''-'' # (cleanBranchName branchName
              @ (if shortHash \<noteq> [] then ''+'' @ shortHash else []))"
      by simp
    with that have "\<not> hasVersionPrefix ?body"
      by (simp only: hasVersionPrefix_append not_False_eq_True)
    then show ?thesis unfolding on by (simp add: ensureVersionPrefix_def)
  qed
  have top: "GenerateVersion now lastTag 0 shortHash branchName options =
              (if Hash options then GenerateSemVer lastTag 0 branchName True shortHash
               else lastTag)" if "Semver options" "\<not> CalVer options"
    using that by (simp add: GenerateVersion_def)
  from off on pre plain top show ?thesis by simp
qed

text \<open>
  Claim C4, amended, at tag \<open>v1.2.3\<close> on branch \<open>feature/auth\<close>.
\<close>

theorem GenerateSemVer_on_tag_other_branch_witness:
  "\<not> isMainBranch ''feature/auth''
   \<and> GenerateSemVer ''v1.2.3'' 0 ''feature/auth'' False ''abc1234'' = ''v1.2.3''
   \<and> GenerateSemVer ''v1.2.3'' 0 ''feature/auth'' True ''abc1234'' = ''v1.2.3-feature-auth+abc1234''"
proof -
  have m: "\<not> isMainBranch ''feature/auth''" by (simp add: isMainBranch_def)
  have c: "cleanBranchName ''feature/auth'' = ''feature-auth''"
    by (simp add: allowedByte_def byte_def runeSize.simps)
  have k: "semverCore ''v1.2.3'' = ''1.2.3''" by (simp add: semverCore_def hasVersionPrefix_def)
  from GenerateSemVer_on_tag_other_branch [OF m, of "''v1.2.3''" "''abc1234''"] m
  show ?thesis
    by (simp add: c k ensureVersionPrefix_def hasVersionPrefix_def del: cleanBranchName.simps)
qed

text \<open>
  Claim C4 as stated fails without the hash: at tag \<open>v1.2.3\<close>, distance 0 on branch
  \<open>feature/auth\<close> the Semver scheme returns \<open>v1.2.3\<close>, not \<open>v1.2.3-feature-auth\<close>. With
  the hash asked for, an empty short hash adds nothing (no trailing \<open>+\<close>), and the tag
  \<open>vv1.2.3\<close> gives \<open>v1.2.3-feature-auth+abc1234\<close> (no second \<open>v\<close>).
\<close>

theorem GenerateSemVer_on_tag_counterexample:
  "GenerateSemVer ''v1.2.3'' 0 ''feature/auth'' False ''abc1234'' = ''v1.2.3''
   \<and> ''v'' @ semverCore ''v1.2.3'' @ ''-'' @ cleanBranchName ''feature/auth'' = ''v1.2.3-feature-auth''
   \<and> GenerateSemVer ''v1.2.3'' 0 ''feature/auth'' False ''abc1234''
       \<noteq> ''v'' @ semverCore ''v1.2.3'' @ ''-'' @ cleanBranchName ''feature/auth''
   \<and> GenerateVersion \<lparr>Year = 2025, Month = 8\<rparr> ''v1.2.3'' 0 ''abc1234'' ''feature/auth''
         \<lparr>Semver = True, CalVer = False, Simple = False, Hash = False\<rparr> = ''v1.2.3''
   \<and> GenerateSemVer ''v1.2.3'' 0 ''feature/auth'' True [] = ''v1.2.3-feature-auth''
   \<and> GenerateSemVer ''vv1.2.3'' 0 ''feature/auth'' True ''abc1234'' =
       ''v1.2.3-feature-auth+abc1234''"
proof -
  have c: "cleanBranchName ''feature/auth'' = ''feature-auth''"
    by (simp add: allowedByte_def byte_def runeSize.simps)
  have k: "semverCore ''v1.2.3'' = ''1.2.3''" by (simp add: semverCore_def hasVersionPrefix_def)
  have kk: "semverCore ''vv1.2.3'' = ''v1.2.3''" by (simp add: semverCore_def hasVersionPrefix_def)
  have m: "\<not> isMainBranch ''feature/auth''" by (simp add: isMainBranch_def)
  show ?thesis
    by (simp add: GenerateSemVer_def GenerateVersion_def c k kk m ensureVersionPrefix_def
        hasVersionPrefix_def del: cleanBranchName.simps)
qed

text \<open>
  Claim C9 in August 2025 on branch \<open>release/2.0\<close> at distance 4, for two different tags.
\<close>

theorem GenerateCalVer_ignores_tag_witness:
  "GenerateCalVer \<lparr>Year = 2025, Month = 8\<rparr> ''v1.2.3'' 4 ''release/2.0'' False ''abc1234'' =
     ''2025.08.4-release-2-0''
   \<and> GenerateCalVer \<lparr>Year = 2025, Month = 8\<rparr> ''v9.9.9'' 4 ''release/2.0'' False ''abc1234'' =
     ''2025.08.4-release-2-0''"
proof -
  have c: "cleanBranchName ''release/2.0'' = ''release-2-0''"
    by (simp add: allowedByte_def byte_def runeSize.simps)
  have y: "fmt_d 2025 = ''2025''" and m: "fmt_02d 8 = ''08''" and d: "fmt_d 4 = ''4''"
    by (simp_all add: fmt_d_def fmt_02d_def decimal.simps digit_def)
  have b: "\<not> isMainBranch ''release/2.0''" by (simp add: isMainBranch_def)
  let ?lhs = "GenerateCalVer \<lparr>Year = 2025, Month = 8\<rparr> ''v1.2.3'' 4 ''release/2.0'' False ''abc1234''"
  let ?rhs = "GenerateCalVer \<lparr>Year = 2025, Month = 8\<rparr> ''v9.9.9'' 4 ''release/2.0'' False ''abc1234''"
  note t = GenerateCalVer_ignores_tag [of "\<lparr>Year = 2025, Month = 8\<rparr>" "''v1.2.3''" 4
      "''release/2.0''" False "''abc1234''" "''v9.9.9''"]
  from t have e1: "?lhs = ?rhs" by (rule conjunct1)
  from t [THEN conjunct2] b have e2: "?lhs = ''2025.08.4-release-2-0''"
    by (simp add: c y m d del: cleanBranchName.simps)
  from e1 e2 show ?thesis by simp
qed

text \<open>
  Claim C10 on a feature branch in docker format and on \<open>main\<close> in the default format.
\<close>

theorem GenerateLegacy_on_tag_witness:
  "GenerateLegacy ''v1.2.3'' 0 ''abc1234'' ''feature/auth'' True = ''v1.2.3''
   \<and> GenerateLegacy ''v1.2.3'' 0 ''abc1234'' ''main'' False = ''v1.2.3''"
  using GenerateLegacy_on_tag [of "''v1.2.3''" "''abc1234''" "''feature/auth''" True]
    GenerateLegacy_on_tag [of "''v1.2.3''" "''abc1234''" "''main''" False]
  by simp



section \<open>Properties of the pre-order walk\<close>

lemma isCommit_iff: "isCommit s h \<longleftrightarrow> (\<exists>ps t. map_of s h = Some (Commit ps t))"
  by (auto simp: isCommit_def split: option.splits object.splits)

lemma preorder_missing:
  "\<not> isCommit s h \<Longrightarrow> preorder s ((h # hs) # stack) seen = ([], Some (ObjectNotFound h))"
  by (auto simp: preorder.simps isCommit_def split: option.splits object.splits)

lemma preorder_skip:
  "isCommit s h \<Longrightarrow> h \<in> set seen \<Longrightarrow>
   preorder s ((h # hs) # stack) seen = preorder s (hs # stack) seen"
  by (auto simp: preorder.simps isCommit_iff)

lemma preorder_visit:
  "map_of s h = Some (Commit ps t) \<Longrightarrow> h \<notin> set seen \<Longrightarrow>
   preorder s ((h # hs) # stack) seen =
     (h # fst (preorder s (if ps \<noteq> [] then filter (\<lambda>p. p \<notin> set (h # seen)) ps # hs # stack
                            else hs # stack) (h # seen)),
      snd (preorder s (if ps \<noteq> [] then filter (\<lambda>p. p \<notin> set (h # seen)) ps # hs # stack
                       else hs # stack) (h # seen)))"
  by (simp add: preorder.simps Let_def)

lemma parentEdgesI: "map_of s c = Some (Commit ps t) \<Longrightarrow> p \<in> set ps \<Longrightarrow> (c, p) \<in> parentEdges s"
  by (auto simp: parentEdges_def)

lemma completeStore_parent:
  assumes "completeStore s" "(c, p) \<in> parentEdges s"
  shows "isCommit s p"
proof -
  from assms(2) obtain ps t where m: "map_of s c = Some (Commit ps t)" and p: "p \<in> set ps"
    by (auto simp: parentEdges_def)
  from m have "(c, Commit ps t) \<in> set s" by (rule map_of_SomeD)
  with assms(1) have "list_all (isCommit s) ps"
    by (auto simp: completeStore_def list_all_iff)
  with p show ?thesis by (simp add: list_all_iff)
qed

lemma preorder_sound:
  "distinct (fst (preorder s stack seen))
   \<and> set (fst (preorder s stack seen)) \<inter> set seen = {}
   \<and> (\<forall>v \<in> set (fst (preorder s stack seen)).
         isCommit s v \<and> (\<exists>x \<in> \<Union>(set ` set stack). (x, v) \<in> (parentEdges s)\<^sup>*))"
proof (induction s stack seen rule: preorder.induct)
  case (1 s seen)
  show ?case by (simp add: preorder.simps)
next
  case (2 s stack seen)
  then show ?case by (simp add: preorder.simps)
next
  case (3 s h hs stack seen)
  show ?case
  proof (cases "isCommit s h")
    case False
    then show ?thesis by (simp add: preorder_missing)
  next
    case True
    then obtain ps t where c: "map_of s h = Some (Commit ps t)"
      by (auto simp: isCommit_iff)
    show ?thesis
    proof (cases "h \<in> set seen")
      case True
      from "3.IH"(1) [OF c refl True] \<open>isCommit s h\<close> True show ?thesis
        by (simp add: preorder_skip)
    next
      case False
      let ?seen = "h # seen"
      let ?stack = "if ps \<noteq> [] then filter (\<lambda>p. p \<notin> set ?seen) ps # hs # stack else hs # stack"
      let ?vs = "fst (preorder s ?stack ?seen)"
      note ih = "3.IH"(2) [OF c refl False refl refl]
      have eq: "fst (preorder s ((h # hs) # stack) seen) = h # ?vs"
        by (simp add: preorder_visit [OF c False])
      from ih have d: "distinct (h # ?vs)" and i: "set (h # ?vs) \<inter> set seen = {}"
        using False by auto
      have r: "isCommit s v \<and> (\<exists>x \<in> \<Union>(set ` set ((h # hs) # stack)). (x, v) \<in> (parentEdges s)\<^sup>*)"
        if "v \<in> set (h # ?vs)" for v
      proof (cases "v = h")
        case True
        with \<open>isCommit s h\<close> show ?thesis by auto
      next
        case False
        with that have "v \<in> set ?vs" by simp
        with ih obtain x where cv: "isCommit s v" and x: "x \<in> \<Union>(set ` set ?stack)"
          and xv: "(x, v) \<in> (parentEdges s)\<^sup>*"
          by blast
        from x have "x \<in> set ps \<or> x \<in> \<Union>(set ` set (hs # stack))"
          by (auto split: if_splits)
        then show ?thesis
        proof
          assume "x \<in> set ps"
          with c have "(h, x) \<in> parentEdges s" by (rule parentEdgesI)
          from this xv have "(h, v) \<in> (parentEdges s)\<^sup>*" by (rule converse_rtrancl_into_rtrancl)
          with cv show ?thesis by auto
        next
          assume "x \<in> \<Union>(set ` set (hs # stack))"
          with xv cv show ?thesis by auto
        qed
      qed
      from d i r show ?thesis unfolding eq by blast
    qed
  qed
qed

lemma preorder_complete:
  assumes "completeStore s"
  shows "(\<forall>x \<in> \<Union>(set ` set stack). isCommit s x) \<Longrightarrow>
     snd (preorder s stack seen) = None
     \<and> \<Union>(set ` set stack) \<subseteq> set seen \<union> set (fst (preorder s stack seen))
     \<and> (\<forall>v \<in> set (fst (preorder s stack seen)). \<forall>p. (v, p) \<in> parentEdges s \<longrightarrow>
           p \<in> set seen \<union> set (fst (preorder s stack seen)))"
  using assms
proof (induction s stack seen rule: preorder.induct)
  case (1 s seen)
  show ?case by (simp add: preorder.simps)
next
  case (2 s stack seen)
  then show ?case by (simp add: preorder.simps)
next
  case (3 s h hs stack seen)
  from "3.prems" have ch: "isCommit s h" by simp
  then obtain ps t where c: "map_of s h = Some (Commit ps t)"
    by (auto simp: isCommit_iff)
  show ?case
  proof (cases "h \<in> set seen")
    case True
    from "3.prems" have "\<forall>x \<in> \<Union>(set ` set (hs # stack)). isCommit s x" by simp
    from "3.IH"(1) [OF c refl True this \<open>completeStore s\<close>] ch True show ?thesis
      by (simp add: preorder_skip)
  next
    case False
    let ?seen = "h # seen"
    let ?stack = "if ps \<noteq> [] then filter (\<lambda>p. p \<notin> set ?seen) ps # hs # stack else hs # stack"
    let ?vs = "fst (preorder s ?stack ?seen)"
    have par: "isCommit s p" if "p \<in> set ps" for p
    proof -
      from c that have "(h, p) \<in> parentEdges s" by (rule parentEdgesI)
      with \<open>completeStore s\<close> show ?thesis by (rule completeStore_parent)
    qed
    have pre: "\<forall>x \<in> \<Union>(set ` set ?stack). isCommit s x"
      using "3.prems"(1) par by (auto split: if_splits)
    note ih = "3.IH"(2) [OF c refl False refl refl pre \<open>completeStore s\<close>]
    have eq: "fst (preorder s ((h # hs) # stack) seen) = h # ?vs"
      and eq2: "snd (preorder s ((h # hs) # stack) seen) = snd (preorder s ?stack ?seen)"
      by (simp_all add: preorder_visit [OF c False])
    from ih have e: "snd (preorder s ?stack ?seen) = None" by blast
    from ih have sub: "\<Union>(set ` set ?stack) \<subseteq> set ?seen \<union> set ?vs" by blast
    from ih have cl: "\<forall>v \<in> set ?vs. \<forall>p. (v, p) \<in> parentEdges s \<longrightarrow> p \<in> set ?seen \<union> set ?vs"
      by blast
    have psin: "p \<in> set ?seen \<union> set ?vs" if "p \<in> set ps" for p
    proof (cases "p \<in> set ?seen")
      case True
      then show ?thesis by (rule UnI1)
    next
      case False
      with that have "p \<in> \<Union>(set ` set ?stack)" by auto
      with sub show ?thesis by blast
    qed
    have a: "\<Union>(set ` set ((h # hs) # stack)) \<subseteq> set seen \<union> set (h # ?vs)"
    proof
      fix x assume "x \<in> \<Union>(set ` set ((h # hs) # stack))"
      then have "x = h \<or> x \<in> \<Union>(set ` set (hs # stack))" by auto
      then show "x \<in> set seen \<union> set (h # ?vs)"
      proof
        assume "x = h" then show ?thesis by simp
      next
        assume "x \<in> \<Union>(set ` set (hs # stack))"
        then have "x \<in> \<Union>(set ` set ?stack)" by auto
        with sub show ?thesis by auto
      qed
    qed
    have b: "p \<in> set seen \<union> set (h # ?vs)" if "v \<in> set (h # ?vs)" "(v, p) \<in> parentEdges s" for v p
    proof (cases "v = h")
      case True
      with that(2) c have "p \<in> set ps" by (auto simp: parentEdges_def)
      from psin [OF this] show ?thesis by auto
    next
      case False
      with that(1) have "v \<in> set ?vs" by simp
      with cl that(2) have "p \<in> set ?seen \<union> set ?vs" by blast
      then show ?thesis by auto
    qed
    from e a b show ?thesis unfolding eq eq2 by blast
  qed
qed

lemma preorder_ancestors:
  assumes "completeStore s" "isCommit s c"
  shows "snd (preorder s [[c]] []) = None"
    and "set (fst (preorder s [[c]] [])) = ancestors s c"
    and "distinct (fst (preorder s [[c]] []))"
proof -
  let ?vs = "fst (preorder s [[c]] [])"
  from assms(2) have pre: "\<forall>x \<in> \<Union>(set ` set [[c]]). isCommit s x" by simp
  note cmp = preorder_complete [OF assms(1) pre, of "[]"]
  note snd = preorder_sound [of s "[[c]]" "[]"]
  from cmp show "snd (preorder s [[c]] []) = None" by blast
  from snd show "distinct ?vs" by blast
  from cmp have cin: "c \<in> set ?vs" by simp
  from cmp have cl: "\<And>v p. v \<in> set ?vs \<Longrightarrow> (v, p) \<in> parentEdges s \<Longrightarrow> p \<in> set ?vs"
    by simp
  have "v \<in> set ?vs" if "(c, v) \<in> (parentEdges s)\<^sup>*" for v
    using that by (induction rule: rtrancl_induct) (auto intro: cin cl)
  moreover have "(c, v) \<in> (parentEdges s)\<^sup>*" if "v \<in> set ?vs" for v
    using snd that by auto
  ultimately show "set ?vs = ancestors s c"
    by (auto simp: ancestors_def)
qed

lemma preorder_first:
  assumes "isCommit s c"
  shows "\<exists>vs. fst (preorder s [[c]] []) = c # vs"
proof -
  from assms obtain ps t where c: "map_of s c = Some (Commit ps t)"
    by (auto simp: isCommit_iff)
  show ?thesis by (simp add: preorder_visit [OF c])
qed


lemma CommitObject_commit: "isCommit (objects r) c \<Longrightarrow> CommitObject r c = Inr c"
  by (auto simp: CommitObject_def isCommit_iff)

lemma CommitObject_Inr: "CommitObject r c = Inr x \<Longrightarrow> x = c \<and> isCommit (objects r) c"
  by (auto simp: CommitObject_def isCommit_iff split: option.splits object.splits)

lemma visited_ancestors:
  "v \<in> set (fst (NewCommitPreorderIter r c)) \<Longrightarrow> v \<in> ancestors (objects r) c"
  using preorder_sound [of "objects r" "[[c]]" "[]"]
  by (auto simp: NewCommitPreorderIter_def ancestors_def)

lemma visited_commit:
  "v \<in> set (fst (NewCommitPreorderIter r c)) \<Longrightarrow> isCommit (objects r) v"
  using preorder_sound [of "objects r" "[[c]]" "[]"]
  by (auto simp: NewCommitPreorderIter_def)

lemma self_ancestor: "c \<in> ancestors s c"
  by (simp add: ancestors_def)

lemma isCommitReachable_total:
  "isCommit (objects r) c \<Longrightarrow> \<exists>b. isCommitReachable r c to = Inr b"
  by (auto simp: isCommitReachable_def CommitObject_commit)

lemma isCommitReachable_ancestor:
  "isCommitReachable r c to = Inr True \<Longrightarrow> to \<in> ancestors (objects r) c"
  by (auto simp: isCommitReachable_def self_ancestor split: if_splits sum.splits
      dest!: CommitObject_Inr visited_ancestors)

lemma isCommitReachable_commit:
  "isCommit (objects r) c \<Longrightarrow> isCommitReachable r c to = Inr True \<Longrightarrow> isCommit (objects r) to"
  by (auto simp: isCommitReachable_def split: if_splits sum.splits
      dest!: CommitObject_Inr visited_commit)

section \<open>Properties of tag resolution and commit distance\<close>

lemma reachableTags_none:
  assumes "isCommit (objects r) c"
  shows "list_all (\<lambda>(tagName, refHash). map_of (objects r) refHash \<noteq> None) refs \<Longrightarrow>
         (\<forall>t \<in> set (tagTargets (objects r) refs). t \<notin> ancestors (objects r) c) \<Longrightarrow>
         reachableTags r c refs = Inr []"
proof (induction refs)
  case Nil
  show ?case by simp
next
  case (Cons ref refs)
  obtain tagName refHash where ref: "ref = (tagName, refHash)" by (cases ref)
  from Cons.prems(1) ref obtain obj where obj: "map_of (objects r) refHash = Some obj"
    by auto
  from Cons.prems have rest: "reachableTags r c refs = Inr []"
    by (intro Cons.IH) (auto simp: tagTargets_def)
  have unreachable: "isCommitReachable r c t = Inr False" if "t \<notin> ancestors (objects r) c" for t
  proof -
    from isCommitReachable_total [OF assms] obtain b where b: "isCommitReachable r c t = Inr b"
      by blast
    with that isCommitReachable_ancestor [of r c t] show ?thesis by (cases b) auto
  qed
  show ?case
  proof (cases obj)
    case (Commit ps t)
    with obj ref Cons.prems(2) have "refHash \<notin> ancestors (objects r) c"
      by (simp add: tagTargets_def)
    then have "isCommitReachable r c refHash = Inr False" by (rule unreachable)
    with obj Commit ref rest show ?thesis by (simp add: Object_def)
  next
    case (Tag target)
    with obj ref Cons.prems(2) have "target \<notin> ancestors (objects r) c"
      by (simp add: tagTargets_def)
    then have "isCommitReachable r c target = Inr False" by (rule unreachable)
    with obj Tag ref rest show ?thesis by (simp add: Object_def)
  next
    case Other
    with obj ref rest show ?thesis by (simp add: Object_def)
  qed
qed

lemma reachableTags_total:
  assumes "isCommit (objects r) c"
  shows "list_all (\<lambda>(tagName, refHash). map_of (objects r) refHash \<noteq> None) refs \<Longrightarrow>
         \<exists>tags. reachableTags r c refs = Inr tags"
proof (induction refs)
  case Nil
  show ?case by simp
next
  case (Cons ref refs)
  obtain tagName refHash where ref: "ref = (tagName, refHash)" by (cases ref)
  from Cons.prems(1) ref obtain obj where obj: "map_of (objects r) refHash = Some obj"
    by auto
  from Cons.prems obtain tags where rest: "reachableTags r c refs = Inr tags"
    using Cons.IH by auto
  have step: "\<exists>tags'. (case isCommitReachable r c t of
             Inl e \<Rightarrow> Inl e
           | Inr False \<Rightarrow> reachableTags r c refs
           | Inr True \<Rightarrow>
               (case CommitObject r t of
                  Inl e \<Rightarrow> Inl e
                | Inr commit \<Rightarrow>
                    (case reachableTags r c refs of
                       Inl e \<Rightarrow> Inl e
                     | Inr tags \<Rightarrow>
                         Inr (\<lparr>name = tagName, hash = t,
                               time = committerTime r commit\<rparr> # tags)))) = Inr tags'" for t
  proof -
    from isCommitReachable_total [OF assms] obtain b where b: "isCommitReachable r c t = Inr b"
      by blast
    show ?thesis
    proof (cases b)
      case True
      with b assms have "isCommit (objects r) t" by (auto intro: isCommitReachable_commit)
      then have "CommitObject r t = Inr t" by (rule CommitObject_commit)
      with b True rest show ?thesis by simp
    next
      case False
      with b rest show ?thesis by simp
    qed
  qed
  show ?case
  proof (cases obj)
    case (Commit ps t)
    with obj ref step [of refHash] show ?thesis by (simp add: Object_def)
  next
    case (Tag target)
    with obj ref step [of target] show ?thesis by (simp add: Object_def)
  next
    case Other
    with obj ref rest show ?thesis by (simp add: Object_def)
  qed
qed

lemma findTagFromCurrentBranch_total:
  assumes "tagsReadable r" "isCommit (objects r) c"
  shows "\<exists>t. findTagFromCurrentBranch pdqsort r c = Inr t"
proof -
  from assms(1) obtain refs where refs: "tagRefs r = Some refs"
    and ok: "list_all (\<lambda>(tagName, refHash). map_of (objects r) refHash \<noteq> None) refs"
    by (auto simp: tagsReadable_def split: option.splits)
  from reachableTags_total [OF assms(2) ok] obtain tags where "reachableTags r c refs = Inr tags"
    by blast
  with refs show ?thesis by (simp add: findTagFromCurrentBranch_def)
qed

lemma countAllCommits_ancestors:
  assumes "completeStore (objects r)" "isCommit (objects r) c"
  shows "countAllCommits r c = Inr (int (card (ancestors (objects r) c)))"
proof -
  note p = preorder_ancestors [OF assms]
  obtain vs e where w: "NewCommitPreorderIter r c = (vs, e)" by (cases "NewCommitPreorderIter r c")
  with p have "e = None" "set vs = ancestors (objects r) c" "distinct vs"
    by (simp_all add: NewCommitPreorderIter_def)
  then have "e = None" "length vs = card (ancestors (objects r) c)"
    by (auto dest: distinct_card)
  with w show ?thesis
    by (simp add: countAllCommits_def CommitObject_commit [OF assms(2)])
qed

lemma disjoint_no_common_ancestor:
  assumes "ancestors (objects r) c \<inter> ancestors (objects r) m = {}"
  shows "\<exists>e. findCommonAncestor r c m = Inl e"
proof -
  from assms self_ancestor [of c "objects r"] self_ancestor [of m "objects r"] have ne: "c \<noteq> m"
    by auto
  have "find (\<lambda>x. x \<in> set (fst (NewCommitPreorderIter r m))) (fst (NewCommitPreorderIter r c)) = None"
    using assms by (auto simp: find_None_iff dest!: visited_ancestors)
  with ne show ?thesis
    by (auto simp: findCommonAncestor_def split: sum.splits prod.splits option.splits
        dest!: CommitObject_Inr)
qed

text \<open>
  Claim C1, amended. For the branch names \<open>main\<close> and \<open>master\<close>, \<open>GetLastTag\<close> of both
  handlers resolves the tag from the current position and does not take the rebase-point
  path. For \<open>detached\<close>, as for every other name, it takes the rebase-point path.
  Nothing here depends on how long slices of tags are sorted.
\<close>

theorem GetLastTag_paths:
  "(branchName = ''main'' \<or> branchName = ''master'' \<longrightarrow>
      GoGit_GetLastTag pdqsort r branchName =
        (case head r of None \<Rightarrow> Inl HeadError | Some h \<Rightarrow> findTagFromCurrentBranch pdqsort r h)
      \<and> SystemGit_GetLastTag run branchName =
          (case run [''describe'', ''--tags'', ''--abbrev=0''] of
             None \<Rightarrow> Inr ''v0.0.0'' | Some output \<Rightarrow> Inr output))
   \<and> GoGit_GetLastTag pdqsort r ''detached'' =
        (case head r of None \<Rightarrow> Inl HeadError
         | Some h \<Rightarrow> GoGit_findTagFromRebasePoint pdqsort r h ''detached'')
   \<and> SystemGit_GetLastTag run ''detached'' = SystemGit_findTagFromRebasePoint run ''detached''
   \<and> (branchName \<noteq> ''main'' \<and> branchName \<noteq> ''master'' \<longrightarrow>
        GoGit_GetLastTag pdqsort r branchName =
          (case head r of None \<Rightarrow> Inl HeadError
           | Some h \<Rightarrow> GoGit_findTagFromRebasePoint pdqsort r h branchName)
        \<and> SystemGit_GetLastTag run branchName =
            SystemGit_findTagFromRebasePoint run branchName)"
  by (auto simp: GoGit_GetLastTag_def SystemGit_GetLastTag.simps split: option.splits)

text \<open>
  Claim C1, amended, on \<open>main\<close> with go-git and on \<open>master\<close> with the git executable.
\<close>

theorem GetLastTag_paths_witness:
  "GoGit_GetLastTag insertionSort
     \<lparr>head = Some 22, objects = [(11, Commit [] 100), (22, Commit [11] 200)],
      tagRefs = Some [(''v1.0.0'', 11), (''v2.0.0'', 22)], branchRefs = [(''main'', 22)]\<rparr> ''main''
     = Inr ''v2.0.0''
   \<and> SystemGit_GetLastTag (map_of [([''describe'', ''--tags'', ''--abbrev=0''], ''v2.0.0'')]) ''master''
     = Inr ''v2.0.0''"
proof -
  let ?r = "\<lparr>head = Some 22, objects = [(11, Commit [] 100), (22, Commit [11] 200)],
      tagRefs = Some [(''v1.0.0'', 11), (''v2.0.0'', 22)], branchRefs = [(''main'', 22)]\<rparr>"
  let ?run = "map_of [([''describe'', ''--tags'', ''--abbrev=0''], ''v2.0.0'')]"
  have f: "findTagFromCurrentBranch insertionSort ?r 22 = Inr ''v2.0.0''" by code_simp
  from GetLastTag_paths [of "''main''" insertionSort ?r ?run] have "GoGit_GetLastTag insertionSort ?r ''main'' = Inr ''v2.0.0''"
    by (simp add: f)
  moreover from GetLastTag_paths [of "''master''" insertionSort ?r ?run]
  have "SystemGit_GetLastTag ?run ''master'' = Inr ''v2.0.0''"
    by simp
  ultimately show ?thesis by simp
qed

text \<open>
  Claim C1 as stated fails for \<open>detached\<close>. HEAD is a commit tagged \<open>v2.0.0\<close>, one commit
  past \<open>main\<close>, which is tagged \<open>v1.0.0\<close>: under the name \<open>detached\<close> the tag is searched
  from the common ancestor with \<open>main\<close> and is \<open>v1.0.0\<close>; under the name \<open>main\<close> it is
  searched from HEAD and is \<open>v2.0.0\<close>. The same holds with the git executable, where
  \<open>merge-base\<close> answers the commit of \<open>main\<close>.
\<close>

theorem GetLastTag_detached_counterexample:
  "GoGit_GetLastTag insertionSort
     \<lparr>head = Some 22, objects = [(11, Commit [] 100), (22, Commit [11] 200)],
      tagRefs = Some [(''v1.0.0'', 11), (''v2.0.0'', 22)], branchRefs = [(''main'', 11)]\<rparr> ''detached''
     = Inr ''v1.0.0''
   \<and> GoGit_GetLastTag insertionSort
     \<lparr>head = Some 22, objects = [(11, Commit [] 100), (22, Commit [11] 200)],
      tagRefs = Some [(''v1.0.0'', 11), (''v2.0.0'', 22)], branchRefs = [(''main'', 11)]\<rparr> ''main''
     = Inr ''v2.0.0''
   \<and> SystemGit_GetLastTag
       (map_of [([''merge-base'', ''HEAD'', ''main''], ''1111111''),
                ([''describe'', ''--tags'', ''--abbrev=0'', ''1111111''], ''v1.0.0''),
                ([''describe'', ''--tags'', ''--abbrev=0''], ''v2.0.0'')]) ''detached''
     = Inr ''v1.0.0''
   \<and> SystemGit_GetLastTag
       (map_of [([''merge-base'', ''HEAD'', ''main''], ''1111111''),
                ([''describe'', ''--tags'', ''--abbrev=0'', ''1111111''], ''v1.0.0''),
                ([''describe'', ''--tags'', ''--abbrev=0''], ''v2.0.0'')]) ''main''
     = Inr ''v2.0.0''"
proof -
  let ?r = "\<lparr>head = Some 22, objects = [(11, Commit [] 100), (22, Commit [11] 200)],
      tagRefs = Some [(''v1.0.0'', 11), (''v2.0.0'', 22)], branchRefs = [(''main'', 11)]\<rparr>"
  have a: "GoGit_GetLastTag insertionSort ?r ''detached'' = Inr ''v1.0.0''" by code_simp
  have b: "GoGit_GetLastTag insertionSort ?r ''main'' = Inr ''v2.0.0''" by code_simp
  show ?thesis
    by (simp add: a b SystemGit_GetLastTag.simps SystemGit_findTagFromRebasePoint.simps)
qed

text \<open>
  Claim C2. Let the tag name not be the sentinel and let it stand for the commit \<open>tc\<close>,
  with HEAD at \<open>h\<close>. Every distance \<open>GetCommitsSinceTag\<close> returns is at least 0, and it is
  0 exactly when \<open>h = tc\<close>; when \<open>h = tc\<close> the result is 0 whatever the store holds (no
  commit is loaded); and when HEAD is a commit of a complete store, a distance is
  returned.
\<close>

theorem GetCommitsSinceTag_distance:
  assumes "tagName \<noteq> ''v0.0.0''" "head r = Some h" "tagCommitHash r tagName = Inr tc"
  shows "(\<forall>n. GoGit_GetCommitsSinceTag r tagName = Inr n \<longrightarrow> 0 \<le> n \<and> (n = 0 \<longleftrightarrow> h = tc))
       \<and> (h = tc \<longrightarrow> GoGit_GetCommitsSinceTag r tagName = Inr 0)
       \<and> (isCommit (objects r) h \<and> completeStore (objects r) \<longrightarrow>
            (\<exists>n. GoGit_GetCommitsSinceTag r tagName = Inr n))"
proof (cases "h = tc")
  case True
  with assms show ?thesis by (simp add: GoGit_GetCommitsSinceTag_def)
next
  case False
  obtain vs err where w: "NewCommitPreorderIter r h = (vs, err)"
    by (cases "NewCommitPreorderIter r h")
  let ?count = "if tc \<in> set vs then Inr (int (length (takeWhile (\<lambda>c. c \<noteq> tc) vs)))
                else case err of Some e \<Rightarrow> Inl e | None \<Rightarrow> Inr (int (length vs))"
  have positive: "0 < n" if "isCommit (objects r) h" "?count = Inr n" for n
  proof -
    from preorder_first [OF that(1)] w obtain vs' where vs: "vs = h # vs'"
      by (auto simp: NewCommitPreorderIter_def)
    with that(2) False show ?thesis
      by (auto split: if_splits option.splits)
  qed
  have part: "0 \<le> n \<and> (n = 0 \<longleftrightarrow> h = tc)" if "GoGit_GetCommitsSinceTag r tagName = Inr n" for n
  proof (cases "isCommit (objects r) h")
    case True
    with that assms False w have "?count = Inr n"
      by (simp add: GoGit_GetCommitsSinceTag_def CommitObject_commit)
    from positive [OF True this] False show ?thesis by simp
  next
    case False
    then have "\<exists>e. CommitObject r h = Inl e"
      by (cases "CommitObject r h") (auto dest: CommitObject_Inr)
    with that assms \<open>h \<noteq> tc\<close> show ?thesis
      by (auto simp: GoGit_GetCommitsSinceTag_def)
  qed
  have total: "\<exists>n. GoGit_GetCommitsSinceTag r tagName = Inr n"
    if "isCommit (objects r) h" "completeStore (objects r)"
  proof -
    from preorder_ancestors(1) [OF that(2) that(1)] w have "err = None"
      by (simp add: NewCommitPreorderIter_def)
    with assms False w that(1) show ?thesis
      by (simp add: GoGit_GetCommitsSinceTag_def CommitObject_commit)
  qed
  from False part total show ?thesis by blast
qed

text \<open>
  Claim C2 on a history of three commits with HEAD on the newest: two commits since the
  tag on the first commit, none since the tag on HEAD.
\<close>

theorem GetCommitsSinceTag_distance_witness:
  "GoGit_GetCommitsSinceTag
     \<lparr>head = Some 33, objects = [(11, Commit [] 100), (22, Commit [11] 200), (33, Commit [22] 300)],
      tagRefs = Some [(''v1.0.0'', 11), (''v1.1.0'', 33)], branchRefs = [(''main'', 33)]\<rparr> ''v1.0.0''
     = Inr 2
   \<and> GoGit_GetCommitsSinceTag
     \<lparr>head = Some 33, objects = [(11, Commit [] 100), (22, Commit [11] 200), (33, Commit [22] 300)],
      tagRefs = Some [(''v1.0.0'', 11), (''v1.1.0'', 33)], branchRefs = [(''main'', 33)]\<rparr> ''v1.1.0''
     = Inr 0"
proof -
  let ?r = "\<lparr>head = Some 33, objects = [(11, Commit [] 100), (22, Commit [11] 200), (33, Commit [22] 300)],
      tagRefs = Some [(''v1.0.0'', 11), (''v1.1.0'', 33)], branchRefs = [(''main'', 33)]\<rparr>"
  have n: "''v1.0.0'' \<noteq> ''v0.0.0''" "''v1.1.0'' \<noteq> ''v0.0.0''" by simp_all
  have h: "head ?r = Some 33" by simp
  have t1: "tagCommitHash ?r ''v1.0.0'' = Inr 11" by code_simp
  have t2: "tagCommitHash ?r ''v1.1.0'' = Inr 33" by code_simp
  have v: "GoGit_GetCommitsSinceTag ?r ''v1.0.0'' = Inr 2" by code_simp
  from GetCommitsSinceTag_distance [OF n(1) h t1] v
  have a: "GoGit_GetCommitsSinceTag ?r ''v1.0.0'' = Inr 2" by simp
  from GetCommitsSinceTag_distance [OF n(2) h t2]
  have b: "GoGit_GetCommitsSinceTag ?r ''v1.1.0'' = Inr 0" by simp
  from a b show ?thesis by (rule conjI)
qed

text \<open>
  Claim C3. Let the starting commit be a commit of the store. When the tags can be read
  and no commit that a tag stands for is among the ancestors of the starting commit,
  \<open>findTagFromCurrentBranch\<close> returns the sentinel \<open>v0.0.0\<close> as a normal result (so does
  \<open>GetLastTag\<close> on \<open>main\<close> when the starting commit is HEAD). And in a complete store
  \<open>GetCommitsSinceTag\<close>, given the sentinel, returns the number of commits reachable from
  HEAD over parent edges, HEAD included.
\<close>

theorem sentinel_when_no_tag_reachable:
  assumes "isCommit (objects r) c"
  shows "(tagRefs r = Some refs \<and> tagsReadable r
          \<and> (\<forall>t \<in> set (tagTargets (objects r) refs). t \<notin> ancestors (objects r) c) \<longrightarrow>
            findTagFromCurrentBranch pdqsort r c = Inr ''v0.0.0''
            \<and> (head r = Some c \<longrightarrow> GoGit_GetLastTag pdqsort r ''main'' = Inr ''v0.0.0''))
       \<and> (head r = Some c \<and> completeStore (objects r) \<longrightarrow>
            GoGit_GetCommitsSinceTag r ''v0.0.0'' = Inr (int (card (ancestors (objects r) c))))"
proof -
  have a: "findTagFromCurrentBranch pdqsort r c = Inr ''v0.0.0''"
    if "tagRefs r = Some refs" "tagsReadable r"
      "\<forall>t \<in> set (tagTargets (objects r) refs). t \<notin> ancestors (objects r) c"
  proof -
    from that(1,2)
    have ok: "list_all (\<lambda>(tagName, refHash). map_of (objects r) refHash \<noteq> None) refs"
      by (simp add: tagsReadable_def)
    from reachableTags_none [OF assms ok that(3)] that(1) show ?thesis
      by (simp add: findTagFromCurrentBranch_def)
  qed
  have b: "GoGit_GetLastTag pdqsort r ''main'' = findTagFromCurrentBranch pdqsort r c" if "head r = Some c"
    using that by (simp add: GoGit_GetLastTag_def)
  have d: "GoGit_GetCommitsSinceTag r ''v0.0.0'' = Inr (int (card (ancestors (objects r) c)))"
    if "head r = Some c" "completeStore (objects r)"
    using that countAllCommits_ancestors [OF that(2) assms]
    by (simp add: GoGit_GetCommitsSinceTag_def)
  from a b d show ?thesis by metis
qed

text \<open>
  Claim C3 on a history of three commits whose only tag is on a side commit that HEAD
  does not reach.
\<close>

theorem sentinel_when_no_tag_reachable_witness:
  "findTagFromCurrentBranch insertionSort
     \<lparr>head = Some 33,
      objects = [(11, Commit [] 100), (22, Commit [11] 200), (33, Commit [22] 300),
                 (44, Commit [11] 250)],
      tagRefs = Some [(''v1.0.0'', 44)], branchRefs = [(''main'', 33)]\<rparr> 33 = Inr ''v0.0.0''
   \<and> GoGit_GetCommitsSinceTag
     \<lparr>head = Some 33,
      objects = [(11, Commit [] 100), (22, Commit [11] 200), (33, Commit [22] 300),
                 (44, Commit [11] 250)],
      tagRefs = Some [(''v1.0.0'', 44)], branchRefs = [(''main'', 33)]\<rparr> ''v0.0.0'' = Inr 3"
proof -
  let ?s = "[(11, Commit [] 100), (22, Commit [11] 200), (33, Commit [22] 300),
             (44, Commit [11] 250)]"
  let ?r = "\<lparr>head = Some 33, objects = ?s,
      tagRefs = Some [(''v1.0.0'', 44)], branchRefs = [(''main'', 33)]\<rparr>"
  have refs: "tagRefs ?r = Some [(''v1.0.0'', 44)]" by simp
  have readable: "tagsReadable ?r" by code_simp
  have complete: "completeStore ?s" by code_simp
  have commit: "isCommit ?s 33" by code_simp
  have walk: "fst (preorder ?s [[33]] []) = [33, 22, 11]" by code_simp
  from preorder_ancestors(2) [OF complete commit] walk
  have anc: "ancestors ?s 33 = {33, 22, 11}" by simp
  have targets: "tagTargets ?s [(''v1.0.0'', 44)] = [44]" by code_simp
  have unreachable: "\<forall>t \<in> set (tagTargets (objects ?r) [(''v1.0.0'', 44)]). t \<notin> ancestors (objects ?r) 33"
    using targets anc by simp
  have commit': "isCommit (objects ?r) 33" using commit by simp
  have card: "card {33, 22, 11 :: nat} = 3" by simp
  from sentinel_when_no_tag_reachable [OF commit', of "[(''v1.0.0'', 44)]" insertionSort]
    refs readable unreachable complete
  show ?thesis by (simp add: anc)
qed

lemma SystemGit_GetLastTag_total: "\<exists>t. SystemGit_GetLastTag run branchName = Inr t"
  by (auto simp: SystemGit_GetLastTag.simps SystemGit_findTagFromRebasePoint.simps
      split: option.splits)

text \<open>
  Claim C7, amended. On a branch that is not a trunk branch, when there is neither a
  \<open>main\<close> nor a \<open>master\<close> reference, or when the histories of HEAD and of the trunk
  reference share no commit, or when \<open>findCommonAncestor\<close> fails in any other way,
  \<open>GetLastTag\<close> of the go-git handler is the resolution from HEAD itself, and it is a
  normal result when the tags can be read. With the git executable, when both
  \<open>merge-base\<close> commands fail the result is that of the \<open>main\<close> case, and \<open>GetLastTag\<close>
  never returns an error.
\<close>

theorem rebase_point_fallback:
  assumes "\<not> isMainBranch branchName" "head r = Some h" "tagsReadable r" "isCommit (objects r) h"
    and "mainBranch r = None
       \<or> (\<exists>m. mainBranch r = Some m \<and> ancestors (objects r) h \<inter> ancestors (objects r) m = {})
       \<or> (\<exists>m e. mainBranch r = Some m \<and> findCommonAncestor r h m = Inl e)"
  shows "GoGit_GetLastTag pdqsort r branchName = findTagFromCurrentBranch pdqsort r h
       \<and> (\<exists>t. GoGit_GetLastTag pdqsort r branchName = Inr t)
       \<and> (run [''merge-base'', ''HEAD'', ''main''] = None
            \<and> run [''merge-base'', ''HEAD'', ''master''] = None \<longrightarrow>
            SystemGit_GetLastTag run branchName = SystemGit_GetLastTag run ''main'')
       \<and> (\<exists>t. SystemGit_GetLastTag run branchName = Inr t)"
proof -
  from assms(1) have b: "branchName \<noteq> ''main''" "branchName \<noteq> ''master''"
    by (auto simp: isMainBranch_def)
  from assms(5) have "mainBranch r = None \<or> (\<exists>m e. mainBranch r = Some m \<and> findCommonAncestor r h m = Inl e)"
    using disjoint_no_common_ancestor [of r h] by blast
  then have "GoGit_findTagFromRebasePoint pdqsort r h branchName = findTagFromCurrentBranch pdqsort r h"
    by (auto simp: GoGit_findTagFromRebasePoint_def)
  with assms(2) b have go: "GoGit_GetLastTag pdqsort r branchName = findTagFromCurrentBranch pdqsort r h"
    by (simp add: GoGit_GetLastTag_def)
  from findTagFromCurrentBranch_total [OF assms(3,4)] go
  have normal: "\<exists>t. GoGit_GetLastTag pdqsort r branchName = Inr t" by simp
  have sys: "SystemGit_GetLastTag run branchName = SystemGit_GetLastTag run ''main''"
    if "run [''merge-base'', ''HEAD'', ''main''] = None"
       "run [''merge-base'', ''HEAD'', ''master''] = None"
    using that b
    by (simp add: SystemGit_GetLastTag.simps [of run branchName]
        SystemGit_findTagFromRebasePoint.simps)
  from go normal sys SystemGit_GetLastTag_total [of run branchName] show ?thesis by blast
qed

text \<open>
  Claim C7 as stated fails with the git executable. \<open>main\<close> exists but shares no commit
  with HEAD, so \<open>merge-base HEAD main\<close> fails; \<open>master\<close> is an ancestor of HEAD, tagged
  \<open>v1.0.0\<close>, and HEAD itself is tagged \<open>v9.0.0\<close>. The handler then tries \<open>master\<close> and
  resolves the tag from that merge base, \<open>v1.0.0\<close>, where the resolution from the current
  position (the \<open>main\<close> case) is \<open>v9.0.0\<close>. On the same history the go-git handler settles
  on \<open>main\<close>, finds no common ancestor and resolves from HEAD: \<open>v9.0.0\<close>.
\<close>

theorem rebase_point_fallback_counterexample:
  "map_of [([''merge-base'', ''HEAD'', ''master''], ''1111111''),
           ([''describe'', ''--tags'', ''--abbrev=0'', ''1111111''], ''v1.0.0''),
           ([''describe'', ''--tags'', ''--abbrev=0''], ''v9.0.0'')]
     [''merge-base'', ''HEAD'', ''main''] = None
   \<and> SystemGit_GetLastTag
       (map_of [([''merge-base'', ''HEAD'', ''master''], ''1111111''),
                ([''describe'', ''--tags'', ''--abbrev=0'', ''1111111''], ''v1.0.0''),
                ([''describe'', ''--tags'', ''--abbrev=0''], ''v9.0.0'')]) ''feature/auth''
     = Inr ''v1.0.0''
   \<and> SystemGit_GetLastTag
       (map_of [([''merge-base'', ''HEAD'', ''master''], ''1111111''),
                ([''describe'', ''--tags'', ''--abbrev=0'', ''1111111''], ''v1.0.0''),
                ([''describe'', ''--tags'', ''--abbrev=0''], ''v9.0.0'')]) ''main''
     = Inr ''v9.0.0''
   \<and> GoGit_GetLastTag insertionSort
     \<lparr>head = Some 33,
      objects = [(11, Commit [] 100), (22, Commit [11] 200), (33, Commit [22] 300),
                 (77, Commit [] 50)],
      tagRefs = Some [(''v1.0.0'', 11), (''v9.0.0'', 33)],
      branchRefs = [(''feature/auth'', 33), (''main'', 77), (''master'', 11)]\<rparr> ''feature/auth''
     = Inr ''v9.0.0''"
proof -
  let ?r = "\<lparr>head = Some 33,
      objects = [(11, Commit [] 100), (22, Commit [11] 200), (33, Commit [22] 300),
                 (77, Commit [] 50)],
      tagRefs = Some [(''v1.0.0'', 11), (''v9.0.0'', 33)],
      branchRefs = [(''feature/auth'', 33), (''main'', 77), (''master'', 11)]\<rparr>"
  have go: "GoGit_GetLastTag insertionSort ?r ''feature/auth'' = Inr ''v9.0.0''" by code_simp
  show ?thesis
    by (simp add: go SystemGit_GetLastTag.simps SystemGit_findTagFromRebasePoint.simps)
qed

text \<open>
  Claim C7 on a feature branch of a repository without \<open>main\<close> and \<open>master\<close>, on a
  feature branch whose history is unrelated to \<open>main\<close>, and with a git executable that
  knows no \<open>main\<close> and no \<open>master\<close>.
\<close>

theorem rebase_point_fallback_witness:
  "GoGit_GetLastTag insertionSort
     \<lparr>head = Some 22, objects = [(11, Commit [] 100), (22, Commit [11] 200)],
      tagRefs = Some [(''v1.0.0'', 11)], branchRefs = [(''feature/auth'', 22)]\<rparr> ''feature/auth''
     = Inr ''v1.0.0''
   \<and> GoGit_GetLastTag insertionSort
     \<lparr>head = Some 22, objects = [(11, Commit [] 100), (22, Commit [11] 200), (77, Commit [] 50)],
      tagRefs = Some [(''v1.0.0'', 11), (''v0.5.0'', 77)],
      branchRefs = [(''feature/auth'', 22), (''main'', 77)]\<rparr> ''feature/auth''
     = Inr ''v1.0.0''
   \<and> SystemGit_GetLastTag (map_of [([''describe'', ''--tags'', ''--abbrev=0''], ''v1.0.0'')])
       ''feature/auth'' = Inr ''v1.0.0''"
proof -
  let ?r1 = "\<lparr>head = Some 22, objects = [(11, Commit [] 100), (22, Commit [11] 200)],
      tagRefs = Some [(''v1.0.0'', 11)], branchRefs = [(''feature/auth'', 22)]\<rparr>"
  let ?r2 = "\<lparr>head = Some 22,
      objects = [(11, Commit [] 100), (22, Commit [11] 200), (77, Commit [] 50)],
      tagRefs = Some [(''v1.0.0'', 11), (''v0.5.0'', 77)],
      branchRefs = [(''feature/auth'', 22), (''main'', 77)]\<rparr>"
  let ?run = "map_of [([''describe'', ''--tags'', ''--abbrev=0''], ''v1.0.0'')]"
  have nt: "\<not> isMainBranch ''feature/auth''" by (simp add: isMainBranch_def)
  have h1: "head ?r1 = Some 22" and h2: "head ?r2 = Some 22" by simp_all
  have t1: "tagsReadable ?r1" and t2: "tagsReadable ?r2" by code_simp+
  have c1: "isCommit (objects ?r1) 22" and c2: "isCommit (objects ?r2) 22" by code_simp+
  have m1: "mainBranch ?r1 = None" by code_simp
  have m2: "mainBranch ?r2 = Some 77" by code_simp
  have f2: "findCommonAncestor ?r2 22 77 = Inl NoCommonAncestor" by code_simp
  have v1: "findTagFromCurrentBranch insertionSort ?r1 22 = Inr ''v1.0.0''" by code_simp
  have v2: "findTagFromCurrentBranch insertionSort ?r2 22 = Inr ''v1.0.0''" by code_simp
  have d1: "mainBranch ?r1 = None
       \<or> (\<exists>m. mainBranch ?r1 = Some m \<and> ancestors (objects ?r1) 22 \<inter> ancestors (objects ?r1) m = {})
       \<or> (\<exists>m e. mainBranch ?r1 = Some m \<and> findCommonAncestor ?r1 22 m = Inl e)"
    using m1 by (rule disjI1)
  have d2: "mainBranch ?r2 = None
       \<or> (\<exists>m. mainBranch ?r2 = Some m \<and> ancestors (objects ?r2) 22 \<inter> ancestors (objects ?r2) m = {})
       \<or> (\<exists>m e. mainBranch ?r2 = Some m \<and> findCommonAncestor ?r2 22 m = Inl e)"
    using m2 f2 by blast
  have a: "GoGit_GetLastTag insertionSort ?r1 ''feature/auth'' = Inr ''v1.0.0''"
    using rebase_point_fallback [OF nt h1 t1 c1 d1, of insertionSort ?run] v1 by simp
  have b: "GoGit_GetLastTag insertionSort ?r2 ''feature/auth'' = Inr ''v1.0.0''"
    using rebase_point_fallback [OF nt h2 t2 c2 d2, of insertionSort ?run] v2 by simp
  have s0: "SystemGit_GetLastTag ?run ''main'' = Inr ''v1.0.0''"
    by (simp add: SystemGit_GetLastTag.simps)
  have c: "SystemGit_GetLastTag ?run ''feature/auth'' = Inr ''v1.0.0''"
    using rebase_point_fallback [OF nt h1 t1 c1 d1, of insertionSort ?run] s0 by simp
  from a b c show ?thesis by blast
qed

end
